theory Spec2Isabelle
  imports Main "HOL-Library.AList"
begin

section \<open>JavaScript values of the configuration\<close>

text \<open>
  The configuration handed to \<^verbatim>\<open>OptionsParser\<close> is a tree of nested objects whose
  leaves are scalars. An object is the association list of its own enumerable properties
  in property order. A scalar is a string, a number (an integer here) or a boolean.
  Property names are not array indices (which JavaScript enumerates first), and no
  object is reachable along two paths.
\<close>

datatype scalar = Str string | Num int | Bool bool

datatype jsval = Leaf scalar | Obj "(string \<times> jsval) list"

type_synonym obj = "(string \<times> jsval) list"

type_synonym flat = "(string \<times> scalar) list"

datatype error = TypeError | ArgumentError | YAMLException string

datatype console_msg = WarnError error | WarnText string

section \<open>String operations\<close>

text \<open>\<^verbatim>\<open>key.replace(/\./g, '_')\<close>\<close>

definition replace_dots :: "string \<Rightarrow> string" where
  "replace_dots key = map (\<lambda>c. if c = CHR ''.'' then CHR ''_'' else c) key"

text \<open>\<^verbatim>\<open>toUpperCase()\<close>, on ASCII letters.\<close>

definition toUpperCase :: "string \<Rightarrow> string" where
  "toUpperCase str =
     map (\<lambda>c. let n = (of_char c :: nat) in
               if 97 \<le> n \<and> n \<le> 122 then char_of (n - 32) else c) str"

text \<open>\<^verbatim>\<open>str.split('.')\<close>: never empty; the empty string splits to one empty segment.\<close>

fun split_dot :: "string \<Rightarrow> string list" where
  "split_dot [] = [[]]"
| "split_dot (c # cs) =
     (if c = CHR ''.'' then [] # split_dot cs
      else (c # hd (split_dot cs)) # tl (split_dot cs))"

text \<open>Path segments joined with a dot.\<close>

fun join_dot :: "string list \<Rightarrow> string" where
  "join_dot [] = []"
| "join_dot [seg] = seg"
| "join_dot (seg # seg' # segs) = seg @ ''.'' @ join_dot (seg' # segs)"

section \<open>Flattening\<close>

text \<open>
  Modelled from the spec: \<^verbatim>\<open>flatten\<close> is imported from the package
  \<^verbatim>\<open>vph_js_utils\<close>, which is not part of the sources. Following section 4.1 of the
  specification, every leaf reachable from the tree gives one entry keyed by the
  dot-joined path from the root, nodes that are mappings give no entry of their own, and
  entries come in traversal order. The result is an object, so an entry whose key was
  already produced overwrites the earlier value.
\<close>

function flatten_entries :: "string list \<Rightarrow> obj \<Rightarrow> flat" where
  "flatten_entries path [] = []"
| "flatten_entries path ((k, Leaf v) # rest) =
     (join_dot (path @ [k]), v) # flatten_entries path rest"
| "flatten_entries path ((k, Obj sub) # rest) =
     flatten_entries (path @ [k]) sub @ flatten_entries path rest"
  by pat_completeness auto
termination
  by (relation "measure (\<lambda>(path, ob). size_list (size_prod (\<lambda>_. 0) size) ob)") auto

definition flatten :: "obj \<Rightarrow> flat" where
  "flatten tree = foldl (\<lambda>acc (k, v). AList.update k v acc) [] (flatten_entries [] tree)"

section \<open>The JavaScript runtime\<close>

text \<open>
  A property read follows the prototype chain, and an assignment can meet an inherited
  setter or a property that cannot be written. What lies beyond the own properties of
  the configuration data belongs to the runtime, which is a parameter of the model.
  \<open>runtime_get\<close> answers a read that finds no own property: on a plain object (the
  property inherited from \<^verbatim>\<open>Object.prototype\<close>, such as \<^verbatim>\<open>constructor\<close>), on a
  scalar, or on an object of the runtime itself. \<open>runtime_put\<close> answers what an
  assignment does there: the value is stored, or silently ignored (the inherited setter
  \<^verbatim>\<open>__proto__\<close> with a scalar), or refused with a TypeError (the module is
  strict-mode code). Both answers may depend on what the run has stored in objects of
  the runtime before, which the log records.
\<close>

type_synonym builtin = string

datatype receiver = OfObject | OfPrimitive scalar | OfBuiltin builtin

datatype jsvalue = JUndefined | JNull | JPrimitive scalar | JBuiltin builtin

datatype put_answer = Store | Ignore | Refuse

type_synonym runtime_log = "(builtin \<times> string \<times> scalar) list"

section \<open>The parser object and the outside world\<close>

text \<open>
  The fields of the class, with \<open>flattened_config_field\<close> for \<^verbatim>\<open>_flattened_config\<close>
  (\<open>None\<close> is \<^verbatim>\<open>undefined\<close>), together with the messages written by
  \<^verbatim>\<open>console.warn\<close> and the values stored in objects of the runtime so far.
\<close>

record state =
  config :: obj
  flattened_config_field :: "flat option"
  env_prefix :: string
  config_help :: obj
  config_file_path :: string
  console :: "console_msg list"
  runtime_log :: runtime_log

text \<open>
  Modelled from the spec: the package \<^verbatim>\<open>node-yaml\<close> is not part of the sources.
  Following sections 4.3 and 6 of the specification, \<^verbatim>\<open>yaml.readSync\<close> on a path
  throws (the file is absent, unreadable or does not parse), or returns
  \<^verbatim>\<open>undefined\<close>, or returns the document, a tree of nested mappings of scalars.
\<close>

datatype yaml_result = YamlThrows error | YamlUndefined | YamlDocument obj

text \<open>
  The world around the parser: the runtime, the file system as seen through
  \<^verbatim>\<open>yaml.readSync\<close>, the variables set in the process environment, and the command
  line as the pairs of a long option string and the value given for it. A command line
  that \<^verbatim>\<open>argparse\<close> rejects ends the process and is not modelled.
\<close>

record world =
  runtime_get :: "runtime_log \<Rightarrow> receiver \<Rightarrow> string \<Rightarrow> jsvalue"
  runtime_put :: "runtime_log \<Rightarrow> receiver \<Rightarrow> string \<Rightarrow> put_answer"
  yaml_readSync :: "string \<Rightarrow> yaml_result"
  process_env :: "(string \<times> string) list"
  process_argv :: "(string \<times> string) list"

text \<open>A method returns normally with a value, or throws; both leave a state behind.\<close>

datatype 'a outcome = Return 'a state | Throw error state

section \<open>The configuration store\<close>

text \<open>The getter \<^verbatim>\<open>flattened_config\<close>: computed on first use, then cached.\<close>

definition flattened_config :: "state \<Rightarrow> flat \<times> state" where
  "flattened_config s =
     (case flattened_config_field s of
        Some f \<Rightarrow> (f, s)
      | None \<Rightarrow> (let f = flatten (config s) in (f, s\<lparr>flattened_config_field := Some f\<rparr>)))"

text \<open>
  What \<^verbatim>\<open>config_section\<close> can hold: a node inside the configuration tree, with the
  path that leads to it (the node is a reference into the tree), or a value outside it.
\<close>

datatype section_ref = Inside "string list" obj | Outside jsvalue

text \<open>
  The read \<^verbatim>\<open>config_section[path_segment]\<close>: an own property of a tree node first,
  the runtime otherwise; reading a property of \<^verbatim>\<open>undefined\<close> or \<^verbatim>\<open>null\<close> throws.
\<close>

definition get_property :: "world \<Rightarrow> state \<Rightarrow> section_ref \<Rightarrow> string \<Rightarrow> error + section_ref" where
  "get_property w s config_section path_segment =
     (case config_section of
        Inside path ob \<Rightarrow>
          (case map_of ob path_segment of
             Some (Leaf x) \<Rightarrow> Inr (Outside (JPrimitive x))
           | Some (Obj sub) \<Rightarrow> Inr (Inside (path @ [path_segment]) sub)
           | None \<Rightarrow> Inr (Outside (runtime_get w (runtime_log s) OfObject path_segment)))
      | Outside JUndefined \<Rightarrow> Inl TypeError
      | Outside JNull \<Rightarrow> Inl TypeError
      | Outside (JPrimitive x) \<Rightarrow>
          Inr (Outside (runtime_get w (runtime_log s) (OfPrimitive x) path_segment))
      | Outside (JBuiltin b) \<Rightarrow>
          Inr (Outside (runtime_get w (runtime_log s) (OfBuiltin b) path_segment)))"

text \<open>The loop of \<^verbatim>\<open>_config_path\<close> over all segments but the last.\<close>

fun walk :: "world \<Rightarrow> state \<Rightarrow> section_ref \<Rightarrow> string list \<Rightarrow> error + section_ref" where
  "walk w s config_section [] = Inr config_section"
| "walk w s config_section (path_segment # rest) =
     (case get_property w s config_section path_segment of
        Inl e \<Rightarrow> Inl e
      | Inr config_section' \<Rightarrow> walk w s config_section' rest)"

text \<open>\<^verbatim>\<open>_config_path\<close> returns the section and the last segment.\<close>

definition config_path :: "world \<Rightarrow> state \<Rightarrow> string \<Rightarrow> error + (section_ref \<times> string)" where
  "config_path w s flattened_object_key =
     (let path_segments = split_dot flattened_object_key in
      case walk w s (Inside [] (config s)) (butlast path_segments) of
        Inl e \<Rightarrow> Inl e
      | Inr config_section \<Rightarrow> Inr (config_section, last path_segments))"

text \<open>Writing a leaf into the tree node found at a path.\<close>

fun assign_at :: "string list \<Rightarrow> string \<Rightarrow> scalar \<Rightarrow> obj \<Rightarrow> obj" where
  "assign_at [] key v ob = AList.update key (Leaf v) ob"
| "assign_at (seg # segs) key v ob =
     (case map_of ob seg of
        Some (Obj sub) \<Rightarrow> AList.update seg (Obj (assign_at segs key v sub)) ob
      | _ \<Rightarrow> ob)"

text \<open>
  The assignment \<^verbatim>\<open>config_section[key] = value\<close>. An own property of a tree node is
  overwritten. Without one the runtime decides: the value is stored as a new own
  property, or ignored, or refused. A scalar takes no property: the assignment is
  ignored when an inherited setter takes it and refused otherwise. An object of the
  runtime stores the value in the runtime.
\<close>

definition assign :: "world \<Rightarrow> state \<Rightarrow> section_ref \<Rightarrow> string \<Rightarrow> scalar \<Rightarrow> error + state" where
  "assign w s config_section key v =
     (case config_section of
        Inside path ob \<Rightarrow>
          (if key \<in> fst ` set ob then Inr (s\<lparr>config := assign_at path key v (config s)\<rparr>)
           else (case runtime_put w (runtime_log s) OfObject key of
                   Store \<Rightarrow> Inr (s\<lparr>config := assign_at path key v (config s)\<rparr>)
                 | Ignore \<Rightarrow> Inr s
                 | Refuse \<Rightarrow> Inl TypeError))
      | Outside JUndefined \<Rightarrow> Inl TypeError
      | Outside JNull \<Rightarrow> Inl TypeError
      | Outside (JPrimitive x) \<Rightarrow>
          (case runtime_put w (runtime_log s) (OfPrimitive x) key of
             Ignore \<Rightarrow> Inr s
           | _ \<Rightarrow> Inl TypeError)
      | Outside (JBuiltin b) \<Rightarrow>
          (case runtime_put w (runtime_log s) (OfBuiltin b) key of
             Store \<Rightarrow> Inr (s\<lparr>runtime_log := runtime_log s @ [(b, key, v)]\<rparr>)
           | Ignore \<Rightarrow> Inr s
           | Refuse \<Rightarrow> Inl TypeError))"

text \<open>The assignment \<^verbatim>\<open>this.flattened_config[flattened_key] = value\<close> on the view.\<close>

definition put_flattened :: "world \<Rightarrow> state \<Rightarrow> flat \<Rightarrow> string \<Rightarrow> scalar \<Rightarrow> error + flat" where
  "put_flattened w s f flattened_key v =
     (if flattened_key \<in> fst ` set f then Inr (AList.update flattened_key v f)
      else (case runtime_put w (runtime_log s) OfObject flattened_key of
              Store \<Rightarrow> Inr (AList.update flattened_key v f)
            | Ignore \<Rightarrow> Inr f
            | Refuse \<Rightarrow> Inl TypeError))"

text \<open>
  \<^verbatim>\<open>_set_option\<close>: the tree is written first, then the flattened view is read (and
  computed, if it was not yet) and written.
\<close>

definition set_option_cfg :: "world \<Rightarrow> string \<Rightarrow> scalar \<Rightarrow> state \<Rightarrow> unit outcome" where
  "set_option_cfg w flattened_key v s =
     (case config_path w s flattened_key of
        Inl e \<Rightarrow> Throw e s
      | Inr (config_section, key) \<Rightarrow>
          (case assign w s config_section key v of
             Inl e \<Rightarrow> Throw e s
           | Inr s1 \<Rightarrow>
               (let (f, s2) = flattened_config s1 in
                case put_flattened w s2 f flattened_key v of
                  Inl e \<Rightarrow> Throw e s2
                | Inr f' \<Rightarrow> Return () (s2\<lparr>flattened_config_field := Some f'\<rparr>))))"

section \<open>Reading the configuration file\<close>

text \<open>The loop over \<^verbatim>\<open>Object.entries(flatten(file_config))\<close>.\<close>

fun file_loop :: "world \<Rightarrow> flat \<Rightarrow> state \<Rightarrow> unit outcome" where
  "file_loop w [] s = Return () s"
| "file_loop w ((flattened_key, v) # rest) s =
     (if v = Str '''' then file_loop w rest s
      else (case set_option_cfg w flattened_key v s of
              Throw e s' \<Rightarrow> Throw e s'
            | Return u s' \<Rightarrow> file_loop w rest s'))"

text \<open>The body of the \<^verbatim>\<open>try\<close> block.\<close>

definition read_config_file_try :: "world \<Rightarrow> state \<Rightarrow> unit outcome" where
  "read_config_file_try w s =
     (case yaml_readSync w (config_file_path s) of
        YamlThrows e \<Rightarrow> Throw e s
      | YamlUndefined \<Rightarrow> Return () s
      | YamlDocument file_config \<Rightarrow> file_loop w (flatten file_config) s)"

text \<open>\<^verbatim>\<open>_read_config_file\<close>: whatever the body throws is caught and written to the console.\<close>

definition read_config_file :: "world \<Rightarrow> state \<Rightarrow> state" where
  "read_config_file w s =
     (case read_config_file_try w s of
        Return u s' \<Rightarrow> s'
      | Throw msg s' \<Rightarrow> s'\<lparr>console := console s' @ [WarnError msg]\<rparr>)"

section \<open>Reading the environment\<close>

text \<open>
  The loop of \<^verbatim>\<open>_read_environment\<close>. It runs over \<^verbatim>\<open>Object.keys(this._config)\<close>, the
  keys of the top level of the nested tree, taken once before the loop starts.
\<close>

fun environment_loop :: "world \<Rightarrow> string list \<Rightarrow> state \<Rightarrow> unit outcome" where
  "environment_loop w [] s = Return () s"
| "environment_loop w (flattened_key # rest) s =
     (case map_of (process_env w)
             (env_prefix s @ ''_'' @ toUpperCase (replace_dots flattened_key)) of
        None \<Rightarrow> environment_loop w rest s
      | Some v \<Rightarrow>
          (case set_option_cfg w flattened_key (Str v) s of
             Throw e s' \<Rightarrow> Throw e s'
           | Return u s' \<Rightarrow> environment_loop w rest s'))"

definition read_environment :: "world \<Rightarrow> state \<Rightarrow> unit outcome" where
  "read_environment w s = environment_loop w (map fst (config s)) s"

section \<open>Reading the command line\<close>

text \<open>
  Modelled from the spec: the package \<^verbatim>\<open>argparse\<close> is not part of the sources.
  Following section 4.3 of the specification, the parser has one long option for each
  key given to it, and parsing returns, for every such option and in the order the
  options were added, the declared destination with the value given on the command
  line, \<open>None\<close> (\<^verbatim>\<open>null\<close>) when the option is absent. A parser is the list of its
  actions; a new parser holds the help action, which has no destination, and
  \<^verbatim>\<open>addArgument\<close> throws when the option string is already taken, as the package
  does.
\<close>

datatype action = Action (option_strings: "string list") (dest: "string option") (help_text: jsvalue)

definition ArgumentParser :: "action list" where
  "ArgumentParser =
     [Action [''-h'', ''--help''] None (JPrimitive (Str ''show this help message and exit''))]"

definition addArgument :: "action list \<Rightarrow> string \<Rightarrow> string \<Rightarrow> jsvalue \<Rightarrow> error + action list" where
  "addArgument parser option_string d h =
     (if option_string \<in> set (concat (map option_strings parser)) then Inl ArgumentError
      else Inr (parser @ [Action [option_string] (Some d) h]))"

definition parseArgs :: "action list \<Rightarrow> (string \<times> string) list \<Rightarrow> (string \<times> string option) list" where
  "parseArgs parser argv =
     concat (map (\<lambda>a. case dest a of
                         None \<Rightarrow> []
                       | Some d \<Rightarrow>
                           [(d, case option_strings a of
                                  [] \<Rightarrow> None
                                | option_string # others \<Rightarrow> map_of argv option_string)])
                 parser)"

text \<open>
  The loop of \<^verbatim>\<open>_init_argparser\<close> over the keys of the flattened configuration. The
  help text is read from the flattened help by the key: an own property, else what the
  runtime answers, and the empty string when that is \<^verbatim>\<open>undefined\<close>.
\<close>

fun init_argparser_loop ::
  "world \<Rightarrow> state \<Rightarrow> flat \<Rightarrow> string list \<Rightarrow> action list \<Rightarrow> error + action list" where
  "init_argparser_loop w s flattened_config_help [] parser = Inr parser"
| "init_argparser_loop w s flattened_config_help (key # rest) parser =
     (case addArgument parser (''--'' @ replace_dots key) key
             (case map_of flattened_config_help key of
                Some h \<Rightarrow> JPrimitive h
              | None \<Rightarrow>
                  (case runtime_get w (runtime_log s) OfObject key of
                     JUndefined \<Rightarrow> JPrimitive (Str '''')
                   | h \<Rightarrow> h)) of
        Inl e \<Rightarrow> Inl e
      | Inr parser' \<Rightarrow> init_argparser_loop w s flattened_config_help rest parser')"

definition init_argparser :: "world \<Rightarrow> state \<Rightarrow> (action list) outcome" where
  "init_argparser w s =
     (let flattened_config_help = flatten (config_help s);
          (f, s') = flattened_config s
      in case init_argparser_loop w s' flattened_config_help (map fst f) ArgumentParser of
           Inl e \<Rightarrow> Throw e s'
         | Inr parser \<Rightarrow> Return parser s')"

text \<open>The loop of \<^verbatim>\<open>_read_args\<close> over \<^verbatim>\<open>Object.entries(args)\<close>.\<close>

fun args_loop :: "world \<Rightarrow> (string \<times> string option) list \<Rightarrow> state \<Rightarrow> unit outcome" where
  "args_loop w [] s = Return () s"
| "args_loop w ((arg_key, val) # rest) s =
     (case val of
        None \<Rightarrow> args_loop w rest s
      | Some v \<Rightarrow>
          (case set_option_cfg w arg_key (Str v) s of
             Throw e s' \<Rightarrow> Throw e s'
           | Return u s' \<Rightarrow> args_loop w rest s'))"

definition read_args :: "world \<Rightarrow> state \<Rightarrow> unit outcome" where
  "read_args w s =
     (case init_argparser w s of
        Throw e s' \<Rightarrow> Throw e s'
      | Return parser s' \<Rightarrow> args_loop w (parseArgs parser (process_argv w)) s')"

section \<open>Verification and reading all sources\<close>

text \<open>The loop of \<^verbatim>\<open>_verify_config\<close> over \<^verbatim>\<open>Object.entries(this.flattened_config)\<close>.\<close>

fun verify_loop :: "flat \<Rightarrow> bool \<Rightarrow> state \<Rightarrow> bool \<times> state" where
  "verify_loop [] config_ok s = (config_ok, s)"
| "verify_loop ((key, v) # rest) config_ok s =
     (if v = Str ''''
      then verify_loop rest False (s\<lparr>console := console s @ [WarnText (key @ '' is empty.'')]\<rparr>)
      else verify_loop rest config_ok s)"

definition verify_config :: "state \<Rightarrow> bool \<times> state" where
  "verify_config s = (let (f, s') = flattened_config s in verify_loop f True s')"

definition read :: "world \<Rightarrow> state \<Rightarrow> bool outcome" where
  "read w s =
     (let s1 = read_config_file w s in
      case read_environment w s1 of
        Throw e s2 \<Rightarrow> Throw e s2
      | Return u s2 \<Rightarrow>
          (case read_args w s2 of
             Throw e s3 \<Rightarrow> Throw e s3
           | Return u' s3 \<Rightarrow> (let (config_ok, s4) = verify_config s3 in Return config_ok s4)))"

text \<open>The constructor.\<close>

definition OptionsParser :: "obj \<Rightarrow> string \<Rightarrow> obj \<Rightarrow> string \<Rightarrow> state" where
  "OptionsParser cfg prefix cfg_help file_path =
     \<lparr>config = cfg, flattened_config_field = None, env_prefix = prefix,
      config_help = cfg_help, config_file_path = file_path, console = [],
      runtime_log = []\<rparr>"

section \<open>Notions used in the properties\<close>

text \<open>The keys the verifier regards as unset, in the order of the flattened view.\<close>

definition unset_keys :: "flat \<Rightarrow> string list" where
  "unset_keys f = map fst (filter (\<lambda>(key, v). v = Str '''') f)"

text \<open>
  The mapping node that a list of path segments resolves to: every segment must name a
  nested mapping of the node before it.
\<close>

fun section_at :: "obj \<Rightarrow> string list \<Rightarrow> obj option" where
  "section_at ob [] = Some ob"
| "section_at ob (seg # segs) =
     (case map_of ob seg of Some (Obj sub) \<Rightarrow> section_at sub segs | _ \<Rightarrow> None)"

text \<open>The state a method leaves behind, whether it returned or threw.\<close>

fun state_of :: "'a outcome \<Rightarrow> state" where
  "state_of (Return x s) = s"
| "state_of (Throw e s) = s"

text \<open>
  Applying a list of pairs to the store: each pair is written with \<open>set_option_cfg\<close>, in
  order, and the first failure ends the run.
\<close>

fun apply_pairs :: "world \<Rightarrow> flat \<Rightarrow> state \<Rightarrow> unit outcome" where
  "apply_pairs w [] s = Return () s"
| "apply_pairs w ((k, v) # rest) s =
     (case set_option_cfg w k v s of
        Throw e s' \<Rightarrow> Throw e s'
      | Return u s' \<Rightarrow> apply_pairs w rest s')"

text \<open>The pairs each source supplies.\<close>

definition file_pairs :: "obj \<Rightarrow> flat" where
  "file_pairs file_config = filter (\<lambda>(k, v). v \<noteq> Str '''') (flatten file_config)"

definition environment_pairs :: "world \<Rightarrow> state \<Rightarrow> flat" where
  "environment_pairs w s =
     concat (map (\<lambda>k. case map_of (process_env w)
                              (env_prefix s @ ''_'' @ toUpperCase (replace_dots k)) of
                        None \<Rightarrow> []
                      | Some v \<Rightarrow> [(k, Str v)])
                 (map fst (config s)))"

definition args_pairs :: "world \<Rightarrow> string list \<Rightarrow> flat" where
  "args_pairs w keys =
     concat (map (\<lambda>k. case map_of (process_argv w) (''--'' @ replace_dots k) of
                        None \<Rightarrow> []
                      | Some v \<Rightarrow> [(k, Str v)])
                 keys)"

text \<open>
  The leaves of a tree, each with the path of segments that leads to it, in traversal
  order; and the leaf paths alone.
\<close>

function leaves :: "obj \<Rightarrow> (string list \<times> scalar) list" where
  "leaves [] = []"
| "leaves ((k, Leaf v) # rest) = ([k], v) # leaves rest"
| "leaves ((k, Obj sub) # rest) = map (\<lambda>(path, v). (k # path, v)) (leaves sub) @ leaves rest"
  by pat_completeness auto
termination
  by (relation "measure (\<lambda>ob. size_list (size_prod (\<lambda>_. 0) size) ob)") auto

definition leaf_paths :: "obj \<Rightarrow> string list list" where
  "leaf_paths tree = map fst (leaves tree)"

text \<open>
  A tree whose flattened keys can be resolved again: on every level the keys are distinct
  (as in any object) and no key contains a dot.
\<close>

definition dot_free :: "string \<Rightarrow> bool" where
  "dot_free seg = (CHR ''.'' \<notin> set seg)"

function wf_obj :: "obj \<Rightarrow> bool" where
  "wf_obj [] = True"
| "wf_obj ((k, Leaf v) # rest) = (dot_free k \<and> k \<notin> fst ` set rest \<and> wf_obj rest)"
| "wf_obj ((k, Obj sub) # rest) =
     (dot_free k \<and> k \<notin> fst ` set rest \<and> wf_obj sub \<and> wf_obj rest)"
  by pat_completeness auto
termination
  by (relation "measure (\<lambda>ob. size_list (size_prod (\<lambda>_. 0) size) ob)") auto

text \<open>The pairs the configuration file supplies: none when it cannot be read or is empty.\<close>

definition file_supplies :: "world \<Rightarrow> state \<Rightarrow> flat" where
  "file_supplies w s =
     (case yaml_readSync w (config_file_path s) of
        YamlDocument file_config \<Rightarrow> file_pairs file_config
      | _ \<Rightarrow> [])"



text \<open>
  A runtime for the examples. It knows the properties every value inherits from
  \<^verbatim>\<open>Object.prototype\<close>, each an object of the runtime called by its name, the length
  of a string, and what the run has stored in objects of the runtime. An assignment to
  \<^verbatim>\<open>__proto__\<close> is ignored; any other is stored by an object and refused by a scalar.
\<close>

definition object_prototype_names :: "string list" where
  "object_prototype_names =
     [''constructor'', ''__proto__'', ''hasOwnProperty'', ''isPrototypeOf'',
      ''propertyIsEnumerable'', ''toLocaleString'', ''toString'', ''valueOf'',
      ''__defineGetter__'', ''__defineSetter__'', ''__lookupGetter__'', ''__lookupSetter__'']"

definition string_length :: "receiver \<Rightarrow> string \<Rightarrow> int option" where
  "string_length r name =
     (case r of
        OfPrimitive (Str x) \<Rightarrow> (if name = ''length'' then Some (int (length x)) else None)
      | _ \<Rightarrow> None)"

definition example_get :: "runtime_log \<Rightarrow> receiver \<Rightarrow> string \<Rightarrow> jsvalue" where
  "example_get log r name =
     (case string_length r name of
        Some n \<Rightarrow> JPrimitive (Num n)
      | None \<Rightarrow>
          (case map_of (rev (map (\<lambda>(b, n, v). ((b, n), v)) log))
                  (case r of OfBuiltin b \<Rightarrow> (b, name) | _ \<Rightarrow> (''__proto__'', name)) of
             Some v \<Rightarrow> JPrimitive v
           | None \<Rightarrow> (if name \<in> set object_prototype_names then JBuiltin name else JUndefined)))"

definition example_put :: "runtime_log \<Rightarrow> receiver \<Rightarrow> string \<Rightarrow> put_answer" where
  "example_put log r name =
     (if name = ''__proto__'' then Ignore
      else (case r of OfPrimitive x \<Rightarrow> Refuse | _ \<Rightarrow> Store))"

definition example_world ::
  "yaml_result \<Rightarrow> (string \<times> string) list \<Rightarrow> (string \<times> string) list \<Rightarrow> world" where
  "example_world file env argv =
     \<lparr>runtime_get = example_get, runtime_put = example_put,
      yaml_readSync = (\<lambda>path. file), process_env = env, process_argv = argv\<rparr>"

text \<open>The flattened view as the getter returns it.\<close>

definition view :: "state \<Rightarrow> flat" where
  "view s = fst (flattened_config s)"

text \<open>The flattened key names a mapping node of the tree: all its segments resolve.\<close>

definition names_section :: "obj \<Rightarrow> string \<Rightarrow> bool" where
  "names_section tree k \<longleftrightarrow> section_at tree (split_dot k) \<noteq> None"







section \<open>Resolving a flattened key\<close>

lemma get_property_Inl: "get_property w s node seg = Inl e \<Longrightarrow> e = TypeError"
  by (auto simp: get_property_def split: section_ref.splits jsvalue.splits option.splits jsval.splits)

lemma walk_Inl: "walk w s node segs = Inl e \<Longrightarrow> e = TypeError"
proof (induction segs arbitrary: node)
  case Nil
  then show ?case by simp
next
  case (Cons seg segs)
  then show ?case by (auto split: sum.splits dest: get_property_Inl)
qed

lemma walk_inside:
  "section_at ob path = Some sub \<Longrightarrow> walk w s (Inside p ob) path = Inr (Inside (p @ path) sub)"
proof (induction path arbitrary: ob p)
  case Nil
  then show ?case by simp
next
  case (Cons seg path)
  then show ?case
    by (auto simp: get_property_def split: option.splits jsval.splits)
qed




section \<open>What one assignment does\<close>

lemma assign_Inl: "assign w s node key v = Inl e \<Longrightarrow> e = TypeError"
  by (auto simp: assign_def split: section_ref.splits jsvalue.splits put_answer.splits if_splits)

lemma put_flattened_Inl: "put_flattened w s f k v = Inl e \<Longrightarrow> e = TypeError"
  by (auto simp: put_flattened_def split: put_answer.splits if_splits)


lemma put_flattened_own:
  "k \<in> fst ` set f \<Longrightarrow> put_flattened w s f k v = Inr (AList.update k v f)"
  by (simp add: put_flattened_def)

lemma assign_Inr:
  assumes "assign w s node key v = Inr s1"
  shows "flattened_config_field s1 = flattened_config_field s \<and>
         env_prefix s1 = env_prefix s \<and> config_help s1 = config_help s \<and>
         config_file_path s1 = config_file_path s \<and> console s1 = console s \<and>
         (config s1 = config s \<or>
          (\<exists>path ob. node = Inside path ob \<and> config s1 = assign_at path key v (config s)))"
  using assms
  by (auto simp: assign_def split: section_ref.splits jsvalue.splits put_answer.splits if_splits)

lemma flattened_config_fields:
  "config (snd (flattened_config s)) = config s \<and>
   env_prefix (snd (flattened_config s)) = env_prefix s \<and>
   config_help (snd (flattened_config s)) = config_help s \<and>
   config_file_path (snd (flattened_config s)) = config_file_path s \<and>
   console (snd (flattened_config s)) = console s \<and>
   runtime_log (snd (flattened_config s)) = runtime_log s \<and>
   flattened_config_field (snd (flattened_config s)) = Some (fst (flattened_config s))"
  by (simp add: flattened_config_def Let_def split: option.splits)

lemma set_option_cfg_cases:
  obtains (early) "set_option_cfg w k v s = Throw TypeError s"
  | (late) node key s1 where "config_path w s k = Inr (node, key)" "assign w s node key v = Inr s1"
      "set_option_cfg w k v s = Throw TypeError (snd (flattened_config s1))"
  | (returns) node key s1 f' where "config_path w s k = Inr (node, key)"
      "assign w s node key v = Inr s1"
      "put_flattened w (snd (flattened_config s1)) (fst (flattened_config s1)) k v = Inr f'"
      "set_option_cfg w k v s =
         Return () ((snd (flattened_config s1))\<lparr>flattened_config_field := Some f'\<rparr>)"
proof (cases "config_path w s k")
  case (Inl e)
  then have "e = TypeError"
    by (auto simp: config_path_def Let_def split: sum.splits dest: walk_Inl)
  then show ?thesis using Inl early by (simp add: set_option_cfg_def)
next
  case (Inr r)
  obtain node key where r: "r = (node, key)" by (cases r)
  show ?thesis
  proof (cases "assign w s node key v")
    case (Inl e)
    then show ?thesis
      using Inr r early assign_Inl [OF Inl] by (simp add: set_option_cfg_def)
  next
    case s1: (Inr s1)
    have eq: "set_option_cfg w k v s =
        (case put_flattened w (snd (flattened_config s1)) (fst (flattened_config s1)) k v of
           Inl e \<Rightarrow> Throw e (snd (flattened_config s1))
         | Inr f' \<Rightarrow> Return () ((snd (flattened_config s1))\<lparr>flattened_config_field := Some f'\<rparr>))"
      using Inr r s1 by (simp add: set_option_cfg_def case_prod_beta)
    show ?thesis
    proof (cases "put_flattened w (snd (flattened_config s1)) (fst (flattened_config s1)) k v")
      case (Inl e)
      have "set_option_cfg w k v s = Throw TypeError (snd (flattened_config s1))"
        using eq Inl put_flattened_Inl [OF Inl] by simp
      then show ?thesis
        using Inr r s1 by (intro late [of node key s1]) simp_all
    next
      case f': (Inr f')
      have "set_option_cfg w k v s =
              Return () ((snd (flattened_config s1))\<lparr>flattened_config_field := Some f'\<rparr>)"
        using eq f' by simp
      then show ?thesis
        using Inr r s1 f' by (intro returns [of node key s1 f']) simp_all
    qed
  qed
qed






section \<open>The configuration file\<close>

text \<open>
  C10. When reading the file yields \<^verbatim>\<open>undefined\<close>, the file step returns at once:
  the nested tree, the flattened view and the console are unchanged.
\<close>

theorem read_config_file_undefined:
  "yaml_readSync w (config_file_path s) = YamlUndefined \<Longrightarrow> read_config_file w s = s"
  by (simp add: read_config_file_def read_config_file_try_def)

theorem read_config_file_undefined_witness:
  "yaml_readSync (example_world YamlUndefined [] [])
     (config_file_path (OptionsParser [(''a'', Leaf (Str ''''))] ''APP'' [] ''./config.yaml''))
     = YamlUndefined \<and>
   read_config_file (example_world YamlUndefined [] [])
     (OptionsParser [(''a'', Leaf (Str ''''))] ''APP'' [] ''./config.yaml'')
     = OptionsParser [(''a'', Leaf (Str ''''))] ''APP'' [] ''./config.yaml''"
  using read_config_file_undefined
    [of "example_world YamlUndefined [] []"
        "OptionsParser [(''a'', Leaf (Str ''''))] ''APP'' [] ''./config.yaml''"]
  by (simp add: example_world_def)

text \<open>
  C6. When reading the file throws (the file is absent, unreadable or does not parse),
  the body of the file step throws before any pair is applied, and the file step itself
  returns normally: the error is written to the console as a warning, and the nested
  tree and the flattened view are unchanged.
\<close>

theorem read_config_file_unavailable:
  "yaml_readSync w (config_file_path s) = YamlThrows e \<Longrightarrow>
   read_config_file_try w s = Throw e s \<and>
   read_config_file w s = s\<lparr>console := console s @ [WarnError e]\<rparr>"
  by (simp add: read_config_file_def read_config_file_try_def)

theorem read_config_file_unavailable_witness:
  "yaml_readSync (example_world (YamlThrows (YAMLException ''ENOENT'')) [] [])
     (config_file_path (OptionsParser [(''a'', Leaf (Str ''''))] ''APP'' [] ''./config.yaml''))
     = YamlThrows (YAMLException ''ENOENT'') \<and>
   read_config_file (example_world (YamlThrows (YAMLException ''ENOENT'')) [] [])
     (OptionsParser [(''a'', Leaf (Str ''''))] ''APP'' [] ''./config.yaml'')
     = (OptionsParser [(''a'', Leaf (Str ''''))] ''APP'' [] ''./config.yaml'')
         \<lparr>console := [WarnError (YAMLException ''ENOENT'')]\<rparr>"
  using read_config_file_unavailable
    [of "example_world (YamlThrows (YAMLException ''ENOENT'')) [] []"
        "OptionsParser [(''a'', Leaf (Str ''''))] ''APP'' [] ''./config.yaml''"
        "YAMLException ''ENOENT''"]
  by (simp add: OptionsParser_def example_world_def)

section \<open>The verifier\<close>

lemma verify_loop_eq:
  "verify_loop f config_ok s =
     (config_ok \<and> unset_keys f = [],
      s\<lparr>console := console s @ map (\<lambda>key. WarnText (key @ '' is empty.'')) (unset_keys f)\<rparr>)"
  by (induction f arbitrary: config_ok s) (auto simp: unset_keys_def)

text \<open>
  C3, as the code has it. A key is unset exactly when its value is the empty string
  (\<open>unset_keys\<close>); the verifier writes one warning for each unset key, naming the key, in
  the order of the flattened view; and it returns a boolean only, which is true exactly
  when no key is unset.
\<close>

theorem verify_config_result:
  "verify_config s =
     (unset_keys (fst (flattened_config s)) = [],
      (snd (flattened_config s))
        \<lparr>console := console s @
           map (\<lambda>key. WarnText (key @ '' is empty.'')) (unset_keys (fst (flattened_config s)))\<rparr>)"
  by (simp add: verify_config_def verify_loop_eq flattened_config_def Let_def
      split: option.splits prod.splits)

text \<open>
  C3, as the specification states it, fails: the value returned does not carry the
  sequence of unset keys. Two configurations with different unset keys give the same
  returned value.
\<close>

theorem verify_config_returns_no_keys:
  "fst (verify_config (OptionsParser [(''a'', Leaf (Str ''''))] ''APP'' [] ''./config.yaml''))
     = False \<and>
   fst (verify_config (OptionsParser [(''b'', Leaf (Str ''''))] ''APP'' [] ''./config.yaml''))
     = False \<and>
   unset_keys (fst (flattened_config
     (OptionsParser [(''a'', Leaf (Str ''''))] ''APP'' [] ''./config.yaml''))) = [''a''] \<and>
   unset_keys (fst (flattened_config
     (OptionsParser [(''b'', Leaf (Str ''''))] ''APP'' [] ''./config.yaml''))) = [''b'']"
  by code_simp

section \<open>The environment\<close>

text \<open>
  C9 fails on the code: the environment step runs over the keys of the top level of the
  nested tree, not over the flattened keys. With the schema \<^verbatim>\<open>{db: {host: ""}}\<close>, the
  prefix \<^verbatim>\<open>APP\<close> and \<^verbatim>\<open>APP_DB_HOST=localhost\<close>, the variable is never looked up and
  no pair is applied.
\<close>

theorem read_environment_nested_key_ignored:
  "read_environment (example_world YamlUndefined [(''APP_DB_HOST'', ''localhost'')] [])
     (OptionsParser [(''db'', Obj [(''host'', Leaf (Str ''''))])] ''APP'' [] ''./config.yaml'')
   = Return () (OptionsParser [(''db'', Obj [(''host'', Leaf (Str ''''))])] ''APP'' [] ''./config.yaml'')"
  by code_simp

section \<open>Reading all sources\<close>

text \<open>
  C1 fails on the code, from the same defect: with the schema \<^verbatim>\<open>{db: {host: ""}}\<close>,
  the prefix \<^verbatim>\<open>APP\<close>, \<^verbatim>\<open>APP_DB_HOST=localhost\<close>, no file and no argument, the
  environment is the only source with a value for \<^verbatim>\<open>db.host\<close>, and after reading
  all sources \<^verbatim>\<open>db.host\<close> is still the empty string.
\<close>

theorem read_nested_key_environment_lost:
  "read (example_world YamlUndefined [(''APP_DB_HOST'', ''localhost'')] [])
     (OptionsParser [(''db'', Obj [(''host'', Leaf (Str ''''))])] ''APP'' [] ''./config.yaml'')
   = Return False
       \<lparr>config = [(''db'', Obj [(''host'', Leaf (Str ''''))])],
        flattened_config_field = Some [(''db.host'', Str '''')],
        env_prefix = ''APP'', config_help = [], config_file_path = ''./config.yaml'',
        console = [WarnText ''db.host is empty.''], runtime_log = []\<rparr>"
  by code_simp


section \<open>The lists of pairs behind the readers\<close>

lemma set_option_cfg_fields:
  "env_prefix (state_of (set_option_cfg w k v s)) = env_prefix s \<and>
   config_help (state_of (set_option_cfg w k v s)) = config_help s \<and>
   config_file_path (state_of (set_option_cfg w k v s)) = config_file_path s \<and>
   console (state_of (set_option_cfg w k v s)) = console s"
proof (cases w k v s rule: set_option_cfg_cases)
  case early
  then show ?thesis by simp
next
  case (late node key s1)
  then show ?thesis
    using assign_Inr [OF late(2)] flattened_config_fields [of s1] by simp
next
  case (returns node key s1 f')
  then show ?thesis
    using assign_Inr [OF returns(2)] flattened_config_fields [of s1] by simp
qed

lemma file_loop_apply_pairs:
  "file_loop w f s = apply_pairs w (filter (\<lambda>(k, v). v \<noteq> Str '''') f) s"
  by (induction w f s rule: file_loop.induct) (auto split: outcome.splits)


lemma environment_loop_apply_pairs:
  "environment_loop w keys s =
     apply_pairs w
       (concat (map (\<lambda>k. case map_of (process_env w)
                                (env_prefix s @ ''_'' @ toUpperCase (replace_dots k)) of
                          None \<Rightarrow> []
                        | Some v \<Rightarrow> [(k, Str v)]) keys)) s"
proof (induction keys arbitrary: s)
  case Nil
  then show ?case by simp
next
  case (Cons key keys)
  show ?case
  proof (cases "map_of (process_env w) (env_prefix s @ ''_'' @ toUpperCase (replace_dots key))")
    case None
    then show ?thesis using Cons.IH [of s] by simp
  next
    case (Some v)
    show ?thesis
    proof (cases "set_option_cfg w key (Str v) s")
      case (Throw e s')
      then show ?thesis using Some by simp
    next
      case (Return u s')
      then have "env_prefix s' = env_prefix s"
        using set_option_cfg_fields [of w key "Str v" s] by simp
      then show ?thesis using Some Return Cons.IH [of s'] by simp
    qed
  qed
qed

lemma read_environment_apply_pairs:
  "read_environment w s = apply_pairs w (environment_pairs w s) s"
  by (simp add: read_environment_def environment_pairs_def environment_loop_apply_pairs)

lemma supplied_pairs_iff:
  "(k, v) \<in> set (concat (map (\<lambda>k. case g k of None \<Rightarrow> [] | Some x \<Rightarrow> [(k, Str x)]) keys)) \<longleftrightarrow>
     k \<in> set keys \<and> (\<exists>x. v = Str x \<and> g k = Some x)"
  by (induction keys) (auto split: option.splits)

lemma environment_pairs_iff:
  "(k, v) \<in> set (environment_pairs w s) \<longleftrightarrow>
     k \<in> fst ` set (config s) \<and>
     (\<exists>x. v = Str x \<and>
          map_of (process_env w) (env_prefix s @ ''_'' @ toUpperCase (replace_dots k)) = Some x)"
  unfolding environment_pairs_def supplied_pairs_iff by simp

lemma args_pairs_iff:
  "(k, v) \<in> set (args_pairs w keys) \<longleftrightarrow>
     k \<in> set keys \<and>
     (\<exists>x. v = Str x \<and> map_of (process_argv w) (''--'' @ replace_dots k) = Some x)"
  unfolding args_pairs_def supplied_pairs_iff by simp

lemma parseArgs_append: "parseArgs (p @ q) argv = parseArgs p argv @ parseArgs q argv"
  by (simp add: parseArgs_def)

lemma init_argparser_loop_parser:
  "init_argparser_loop w s h keys parser = Inr parser' \<Longrightarrow>
   parseArgs parser' argv =
     parseArgs parser argv @ map (\<lambda>k. (k, map_of argv (''--'' @ replace_dots k))) keys"
proof (induction keys arbitrary: parser)
  case Nil
  then show ?case by simp
next
  case (Cons key keys)
  then show ?case
    by (auto simp: addArgument_def parseArgs_append split: if_splits sum.splits)
       (simp add: parseArgs_def)
qed

lemma args_loop_apply_pairs:
  "args_loop w (map (\<lambda>k. (k, map_of (process_argv w) (''--'' @ replace_dots k))) keys) s =
     apply_pairs w (args_pairs w keys) s"
proof (induction keys arbitrary: s)
  case Nil
  then show ?case by (simp add: args_pairs_def)
next
  case (Cons key keys)
  then show ?case
    by (cases "map_of (process_argv w) (''--'' @ replace_dots key)")
       (auto simp: args_pairs_def split: outcome.splits)
qed

lemma read_args_apply_pairs:
  "read_args w s =
     (case init_argparser w s of
        Throw e s' \<Rightarrow> Throw e s'
      | Return parser s' \<Rightarrow>
          apply_pairs w (args_pairs w (map fst (fst (flattened_config s)))) s')"
proof (cases "init_argparser w s")
  case (Throw e s')
  then show ?thesis by (simp add: read_args_def)
next
  case (Return parser s')
  define keys where "keys = map fst (fst (flattened_config s))"
  have "init_argparser_loop w (snd (flattened_config s)) (flatten (config_help s)) keys
          ArgumentParser = Inr parser"
    using Return unfolding keys_def
    by (auto simp: init_argparser_def Let_def split: prod.splits sum.splits)
  from init_argparser_loop_parser [OF this, of "process_argv w"]
  have "parseArgs parser (process_argv w) =
          map (\<lambda>k. (k, map_of (process_argv w) (''--'' @ replace_dots k))) keys"
    by (simp add: parseArgs_def ArgumentParser_def)
  then have "args_loop w (parseArgs parser (process_argv w)) s' =
               apply_pairs w (args_pairs w keys) s'"
    by (simp only: args_loop_apply_pairs)
  then show ?thesis
    using Return unfolding keys_def by (simp add: read_args_def)
qed



section \<open>Leaf paths and flattened keys\<close>

lemma flatten_entries_leaves:
  "flatten_entries p tree = map (\<lambda>(q, v). (join_dot (p @ q), v)) (leaves tree)"
  by (induction p tree rule: flatten_entries.induct) (auto simp: case_prod_beta)

lemma split_dot_nonempty: "split_dot str \<noteq> []"
  by (induction str) auto

lemma split_dot_dot_free: "dot_free seg \<Longrightarrow> split_dot seg = [seg]"
  by (induction seg) (auto simp: dot_free_def)

lemma split_dot_append:
  "dot_free seg \<Longrightarrow> split_dot (seg @ CHR ''.'' # str) = seg # split_dot str"
  by (induction seg) (auto simp: dot_free_def)

lemma split_join_dot:
  "segs \<noteq> [] \<Longrightarrow> list_all dot_free segs \<Longrightarrow> split_dot (join_dot segs) = segs"
  by (induction segs rule: join_dot.induct) (auto simp: split_dot_dot_free split_dot_append)

lemma leaves_path:
  "(q, x) \<in> set (leaves tree) \<Longrightarrow> q \<noteq> [] \<and> hd q \<in> fst ` set tree"
proof (induction tree arbitrary: q x rule: leaves.induct)
  case 1
  then show ?case by simp
next
  case (2 k v rest)
  then have "q = [k] \<or> (q, x) \<in> set (leaves rest)" by auto
  then show ?case using 2(1) by fastforce
next
  case (3 k sub rest)
  then have "(\<exists>path. q = k # path) \<or> (q, x) \<in> set (leaves rest)" by auto
  then show ?case using 3(2) by fastforce
qed

lemma leaves_dot_free:
  "wf_obj tree \<Longrightarrow> (q, x) \<in> set (leaves tree) \<Longrightarrow> list_all dot_free q"
  by (induction tree arbitrary: q x rule: leaves.induct) auto

lemma leaf_paths_simps:
  "leaf_paths [] = []"
  "leaf_paths ((k, Leaf v) # rest) = [k] # leaf_paths rest"
  "leaf_paths ((k, Obj sub) # rest) = map ((#) k) (leaf_paths sub) @ leaf_paths rest"
  by (simp_all add: leaf_paths_def case_prod_beta comp_def)

lemma leaf_paths_hd: "q \<in> set (leaf_paths tree) \<Longrightarrow> q \<noteq> [] \<and> hd q \<in> fst ` set tree"
  using leaves_path [of q _ tree] by (auto simp: leaf_paths_def)

lemma distinct_leaf_paths: "wf_obj tree \<Longrightarrow> distinct (leaf_paths tree)"
proof (induction tree rule: leaves.induct)
  case 1
  then show ?case by (simp add: leaf_paths_simps)
next
  case (2 k v rest)
  have "[k] \<notin> set (leaf_paths rest)"
    using 2(2) leaf_paths_hd [of "[k]" rest] by auto
  then show ?case using 2 by (simp add: leaf_paths_simps)
next
  case (3 k sub rest)
  have "distinct (map ((#) k) (leaf_paths sub))"
    using 3 by (simp add: distinct_map)
  moreover have "set (map ((#) k) (leaf_paths sub)) \<inter> set (leaf_paths rest) = {}"
  proof -
    have "hd q \<noteq> k" if "q \<in> set (leaf_paths rest)" for q
      using leaf_paths_hd [OF that] 3(3) by auto
    then show ?thesis by fastforce
  qed
  ultimately show ?case using 3 by (simp add: leaf_paths_simps)
qed

lemma distinct_leaves: "wf_obj tree \<Longrightarrow> distinct (map fst (leaves tree))"
  using distinct_leaf_paths by (simp add: leaf_paths_def)

section \<open>Assignment at a leaf of the tree\<close>

lemma update_append_in:
  "k \<in> fst ` set xs \<Longrightarrow> AList.update k v (xs @ ys) = AList.update k v xs @ ys"
  by (induction xs) auto

lemma update_append_out:
  "k \<notin> fst ` set xs \<Longrightarrow> AList.update k v (xs @ ys) = xs @ AList.update k v ys"
  by (induction xs) auto

lemma update_map_inj:
  "inj_on g (insert k (fst ` set xs)) \<Longrightarrow>
   AList.update (g k) v (map (\<lambda>(a, b). (g a, b)) xs) = map (\<lambda>(a, b). (g a, b)) (AList.update k v xs)"
proof (induction xs)
  case Nil
  then show ?case by simp
next
  case (Cons p xs)
  have "inj_on g (insert k (fst ` set xs))"
    using Cons.prems by (auto simp: inj_on_def)
  moreover have "g (fst p) = g k \<longleftrightarrow> fst p = k"
    using Cons.prems by (auto simp: inj_on_def)
  ultimately show ?case
    using Cons.IH by (cases p) auto
qed

lemma update_present_keys: "k \<in> fst ` set xs \<Longrightarrow> map fst (AList.update k v xs) = map fst xs"
  by (induction xs) auto

lemma assign_at_Cons_other:
  "hd (path @ [key]) \<noteq> k \<Longrightarrow>
   assign_at path key v ((k, n) # rest) = (k, n) # assign_at path key v rest"
  by (cases path) (auto split: option.splits jsval.splits)

lemma section_at_Cons_other:
  "path \<noteq> [] \<Longrightarrow> hd path \<noteq> k \<Longrightarrow> section_at ((k, n) # rest) path = section_at rest path"
  by (cases path) auto

lemma assign_at_leaf:
  assumes "wf_obj tree" "(q, x) \<in> set (leaves tree)"
  shows "leaves (assign_at (butlast q) (last q) v tree) = AList.update q v (leaves tree) \<and>
         map fst (assign_at (butlast q) (last q) v tree) = map fst tree \<and>
         wf_obj (assign_at (butlast q) (last q) v tree) \<and>
         section_at tree (butlast q) \<noteq> None"
  using assms
proof (induction tree arbitrary: q x rule: leaves.induct)
  case 1
  then show ?case by simp
next
  case (2 k y rest)
  show ?case
  proof (cases "q = [k]")
    case True
    then show ?thesis using 2(2) by simp
  next
    case False
    then have mem: "(q, x) \<in> set (leaves rest)" using 2(3) by auto
    have wf: "wf_obj rest" "k \<notin> fst ` set rest" "dot_free k" using 2(2) by auto
    have hd: "q \<noteq> []" "hd q \<noteq> k"
      using leaves_path [OF mem] wf(2) by auto
    note IH = 2(1) [OF wf(1) mem]
    have a: "assign_at (butlast q) (last q) v ((k, Leaf y) # rest) =
               (k, Leaf y) # assign_at (butlast q) (last q) v rest"
      by (rule assign_at_Cons_other) (use hd in simp)
    have keys: "fst ` set (assign_at (butlast q) (last q) v rest) = fst ` set rest"
      using IH by (metis list.set_map)
    have sec: "section_at ((k, Leaf y) # rest) (butlast q) \<noteq> None"
    proof (cases "butlast q = []")
      case True
      then show ?thesis by simp
    next
      case nonempty: False
      then have "hd (butlast q) = hd q" by (cases q) (auto split: if_splits)
      then show ?thesis
        using section_at_Cons_other [OF nonempty, of k] hd(2) IH by simp
    qed
    show ?thesis
      using IH a False wf keys sec by simp
  qed
next
  case (3 k sub rest)
  have wf: "wf_obj sub" "wf_obj rest" "k \<notin> fst ` set rest" "dot_free k" using 3(3) by auto
  let ?block = "map (\<lambda>(path, v). (k # path, v)) (leaves sub)"
  show ?case
  proof (cases "hd q = k")
    case True
    have "(q, x) \<notin> set (leaves rest)"
      using leaves_path [of q x rest] True wf(3) by auto
    then obtain q' where q': "q = k # q'" "(q', x) \<in> set (leaves sub)"
      using 3(4) by auto
    then have ne: "q' \<noteq> []" using leaves_path by blast
    note IH = 3(1) [OF wf(1) q'(2)]
    have bl: "butlast q = k # butlast q'" "last q = last q'"
      using q'(1) ne by simp_all
    have a: "assign_at (butlast q) (last q) v ((k, Obj sub) # rest) =
               (k, Obj (assign_at (butlast q') (last q') v sub)) # rest"
      by (simp add: bl)
    have "AList.update q v (?block @ leaves rest) = AList.update q v ?block @ leaves rest"
      by (rule update_append_in) (use q' in force)
    also have "AList.update q v ?block = map (\<lambda>(path, v). (k # path, v)) (AList.update q' v (leaves sub))"
      unfolding q'(1) by (rule update_map_inj) (simp add: inj_on_def)
    finally have "leaves (assign_at (butlast q) (last q) v ((k, Obj sub) # rest)) =
        AList.update q v (leaves ((k, Obj sub) # rest))"
      using IH a by simp
    moreover have "section_at ((k, Obj sub) # rest) (butlast q) \<noteq> None"
      using IH by (simp add: bl)
    ultimately show ?thesis
      using IH a wf by simp
  next
    case False
    then have mem: "(q, x) \<in> set (leaves rest)" using 3(4) by auto
    have hd: "q \<noteq> []" using leaves_path [OF mem] by simp
    note IH = 3(2) [OF wf(2) mem]
    have a: "assign_at (butlast q) (last q) v ((k, Obj sub) # rest) =
               (k, Obj sub) # assign_at (butlast q) (last q) v rest"
      by (rule assign_at_Cons_other) (use hd False in simp)
    have keys: "fst ` set (assign_at (butlast q) (last q) v rest) = fst ` set rest"
      using IH by (metis list.set_map)
    have "q \<notin> fst ` set ?block"
      using False by auto
    then have u: "AList.update q v (?block @ leaves rest) = ?block @ AList.update q v (leaves rest)"
      by (rule update_append_out)
    have sec: "section_at ((k, Obj sub) # rest) (butlast q) \<noteq> None"
    proof (cases "butlast q = []")
      case True
      then show ?thesis by simp
    next
      case nonempty: False
      then have "hd (butlast q) = hd q" by (cases q) (auto split: if_splits)
      then show ?thesis
        using section_at_Cons_other [OF nonempty, of k] False IH by simp
    qed
    show ?thesis
      using IH a wf keys sec u by simp
  qed
qed

section \<open>The nested tree and the flattened view\<close>

lemma update_fresh: "k \<notin> fst ` set acc \<Longrightarrow> AList.update k v acc = acc @ [(k, v)]"
  by (induction acc) auto

lemma foldl_update_distinct:
  "distinct (map fst (acc @ es)) \<Longrightarrow>
   foldl (\<lambda>acc (k, v). AList.update k v acc) acc es = acc @ es"
proof (induction es arbitrary: acc)
  case Nil
  then show ?case by simp
next
  case (Cons e es)
  obtain k v where e: "e = (k, v)" by (cases e)
  have "AList.update k v acc = acc @ [(k, v)]"
    using Cons.prems e by (intro update_fresh) auto
  moreover have "distinct (map fst ((acc @ [(k, v)]) @ es))"
    using Cons.prems e by simp
  ultimately show ?case
    using Cons.IH [of "acc @ [(k, v)]"] e by simp
qed

lemma join_dot_inj:
  assumes "join_dot p = join_dot q" "p \<noteq> []" "q \<noteq> []" "list_all dot_free p" "list_all dot_free q"
  shows "p = q"
  using assms split_join_dot by metis

lemma join_dot_inj_on_leaves:
  assumes "wf_obj tree"
  shows "inj_on join_dot (fst ` set (leaves tree))"
proof (rule inj_onI)
  fix p q
  assume "p \<in> fst ` set (leaves tree)" "q \<in> fst ` set (leaves tree)" "join_dot p = join_dot q"
  then obtain x y where "(p, x) \<in> set (leaves tree)" "(q, y) \<in> set (leaves tree)"
    by auto
  then have "p \<noteq> []" "q \<noteq> []" "list_all dot_free p" "list_all dot_free q"
    using leaves_path leaves_dot_free [OF assms] by blast+
  then show "p = q"
    using \<open>join_dot p = join_dot q\<close> by (rule join_dot_inj [rotated])
qed

lemma flatten_wf:
  assumes "wf_obj tree"
  shows "flatten tree = map (\<lambda>(q, v). (join_dot q, v)) (leaves tree)"
proof -
  have eq: "map fst (map (\<lambda>(q, v). (join_dot q, v)) (leaves tree)) = map join_dot (map fst (leaves tree))"
    by (simp add: case_prod_beta comp_def)
  have "distinct (map join_dot (map fst (leaves tree)))"
    using distinct_leaves [OF assms] join_dot_inj_on_leaves [OF assms]
    by (subst distinct_map) simp
  then have "distinct (map fst (map (\<lambda>(q, v). (join_dot q, v)) (leaves tree)))"
    unfolding eq .
  then have "foldl (\<lambda>acc (k, v). AList.update k v acc) []
               (map (\<lambda>(q, v). (join_dot q, v)) (leaves tree)) =
             [] @ map (\<lambda>(q, v). (join_dot q, v)) (leaves tree)"
    by (intro foldl_update_distinct) (simp only: append_Nil)
  then show ?thesis
    by (simp add: flatten_def flatten_entries_leaves)
qed

lemma flatten_key_leaf:
  assumes "wf_obj tree" "k \<in> fst ` set (flatten tree)"
  obtains q x where "(q, x) \<in> set (leaves tree)" "k = join_dot q" "split_dot k = q"
proof -
  obtain q x where qx: "(q, x) \<in> set (leaves tree)" "k = join_dot q"
    using assms by (auto simp: flatten_wf)
  then have "split_dot k = q"
    using leaves_path [OF qx(1)] leaves_dot_free [OF assms(1) qx(1)] by (simp add: split_join_dot)
  then show ?thesis using that qx by blast
qed

lemma flatten_assign_at:
  assumes "wf_obj tree" "(q, x) \<in> set (leaves tree)"
  shows "flatten (assign_at (butlast q) (last q) v tree) = AList.update (join_dot q) v (flatten tree)"
proof -
  note a = assign_at_leaf [OF assms, of v]
  have "inj_on join_dot (insert q (fst ` set (leaves tree)))"
    using join_dot_inj_on_leaves [OF assms(1)] assms(2) by (simp add: insert_absorb rev_image_eqI)
  from update_map_inj [OF this, of v]
  show ?thesis
    using a by (simp add: flatten_wf assms(1))
qed


lemma leaf_own:
  assumes "wf_obj tree" "(q, x) \<in> set (leaves tree)"
  shows "\<exists>sub. section_at tree (butlast q) = Some sub \<and> map_of sub (last q) = Some (Leaf x)"
  using assms
proof (induction tree arbitrary: q x rule: leaves.induct)
  case 1
  then show ?case by simp
next
  case (2 k y rest)
  show ?case
  proof (cases "(q, x) = ([k], y)")
    case True
    then show ?thesis by simp
  next
    case False
    then have mem: "(q, x) \<in> set (leaves rest)" using 2(3) by auto
    have wf: "wf_obj rest" "k \<notin> fst ` set rest" using 2(2) by auto
    have hd: "q \<noteq> []" "hd q \<noteq> k"
      using leaves_path [OF mem] wf(2) by auto
    obtain sub where sub: "section_at rest (butlast q) = Some sub"
        "map_of sub (last q) = Some (Leaf x)"
      using 2(1) [OF wf(1) mem] by blast
    show ?thesis
    proof (cases "butlast q = []")
      case True
      then have "q = [last q]" using hd(1) by (metis append_butlast_last_id append_Nil)
      then have "last q \<noteq> k" using hd(2) by (metis list.sel(1))
      then show ?thesis using True sub by simp
    next
      case nonempty: False
      then have "hd (butlast q) = hd q" by (cases q) (auto split: if_splits)
      then show ?thesis
        using section_at_Cons_other [OF nonempty, of k] hd(2) sub by auto
    qed
  qed
next
  case (3 k sub0 rest)
  have wf: "wf_obj sub0" "wf_obj rest" "k \<notin> fst ` set rest" using 3(3) by auto
  show ?case
  proof (cases "hd q = k")
    case True
    have "(q, x) \<notin> set (leaves rest)"
      using leaves_path [of q x rest] True wf(3) by auto
    then obtain q' where q': "q = k # q'" "(q', x) \<in> set (leaves sub0)"
      using 3(4) by auto
    then have ne: "q' \<noteq> []" using leaves_path by blast
    have bl: "butlast q = k # butlast q'" "last q = last q'"
      using q'(1) ne by simp_all
    show ?thesis
      using 3(1) [OF wf(1) q'(2)] by (simp add: bl)
  next
    case False
    then have mem: "(q, x) \<in> set (leaves rest)" using 3(4) by auto
    have hd: "q \<noteq> []" using leaves_path [OF mem] by simp
    obtain sub where sub: "section_at rest (butlast q) = Some sub"
        "map_of sub (last q) = Some (Leaf x)"
      using 3(2) [OF wf(2) mem] by blast
    show ?thesis
    proof (cases "butlast q = []")
      case True
      then have "q = [last q]" using hd by (metis append_butlast_last_id append_Nil)
      then have "last q \<noteq> k" using False by (metis list.sel(1))
      then show ?thesis using True sub by simp
    next
      case nonempty: False
      then have "hd (butlast q) = hd q" by (cases q) (auto split: if_splits)
      then show ?thesis
        using section_at_Cons_other [OF nonempty, of k] False sub by auto
    qed
  qed
qed

lemma update_same_twice: "AList.update k v (AList.update k v al) = AList.update k v al"
  by (rule update_triv) (simp add: update_conv')

lemma set_option_cfg_wf:
  assumes wf: "wf_obj (config s)"
    and cache: "flattened_config_field s = None \<or> flattened_config_field s = Some (flatten (config s))"
    and key: "k \<in> fst ` set (flatten (config s))"
  shows "\<exists>s'. set_option_cfg w k v s = Return () s' \<and>
              wf_obj (config s') \<and>
              flattened_config_field s' = Some (flatten (config s')) \<and>
              flatten (config s') = AList.update k v (flatten (config s)) \<and>
              map fst (config s') = map fst (config s) \<and>
              env_prefix s' = env_prefix s \<and> config_help s' = config_help s \<and>
              config_file_path s' = config_file_path s \<and> console s' = console s \<and>
              runtime_log s' = runtime_log s"
proof -
  obtain q x where q: "(q, x) \<in> set (leaves (config s))" "k = join_dot q" "split_dot k = q"
    using flatten_key_leaf [OF wf key] by blast
  note a = assign_at_leaf [OF wf q(1), of v]
  note f = flatten_assign_at [OF wf q(1), of v]
  obtain sub where sub: "section_at (config s) (butlast q) = Some sub"
      "map_of sub (last q) = Some (Leaf x)"
    using leaf_own [OF wf q(1)] by blast
  have own: "last q \<in> fst ` set sub"
    using sub(2) by (metis domI dom_map_of_conv_image_fst)
  define s1 where "s1 = s\<lparr>config := assign_at (butlast q) (last q) v (config s)\<rparr>"
  have path: "config_path w s k = Inr (Inside (butlast q) sub, last q)"
    using walk_inside [OF sub(1), of w s "[]"] by (simp add: config_path_def q(3))
  have asg: "assign w s (Inside (butlast q) sub) (last q) v = Inr s1"
    using own by (simp add: assign_def s1_def)
  have fl: "flatten (config s1) = AList.update k v (flatten (config s))"
    using f by (simp add: s1_def q(2))
  have view1: "fst (flattened_config s1) = flatten (config s1) \<or>
               fst (flattened_config s1) = flatten (config s)"
    using cache by (auto simp: flattened_config_def s1_def Let_def)
  have keys: "k \<in> fst ` set (fst (flattened_config s1))"
    using view1 fl key by (auto simp: dom_update)
  have upd: "AList.update k v (fst (flattened_config s1)) = flatten (config s1)"
    using view1 fl by (auto simp: update_same_twice)
  have "set_option_cfg w k v s =
          Return () ((snd (flattened_config s1))\<lparr>flattened_config_field := Some (flatten (config s1))\<rparr>)"
    using path asg put_flattened_own [OF keys] upd
    by (simp add: set_option_cfg_def case_prod_beta)
  then show ?thesis
    using a fl flattened_config_fields [of s1] by (simp add: s1_def)
qed


lemma distinct_foldl_update:
  "distinct (map fst acc) \<Longrightarrow>
   distinct (map fst (foldl (\<lambda>acc (k, v). AList.update k v acc) acc es))"
  by (induction es arbitrary: acc) (auto simp: distinct_update)

lemma distinct_flatten: "distinct (map fst (flatten tree))"
  by (simp add: flatten_def distinct_foldl_update)

lemma update_key_set: "k \<in> fst ` set al \<Longrightarrow> fst ` set (AList.update k v al) = fst ` set al"
  using update_present_keys [of k al v] by (metis list.set_map)

lemma apply_pairs_wf:
  assumes "wf_obj (config s)"
    and "flattened_config_field s = None \<or> flattened_config_field s = Some (flatten (config s))"
    and "fst ` set ps \<subseteq> fst ` set (flatten (config s))"
  shows "\<exists>s'. apply_pairs w ps s = Return () s' \<and>
              wf_obj (config s') \<and>
              (flattened_config_field s' = None \<or>
               flattened_config_field s' = Some (flatten (config s'))) \<and>
              (ps \<noteq> [] \<longrightarrow> flattened_config_field s' = Some (flatten (config s'))) \<and>
              flatten (config s') = foldl (\<lambda>f (k, v). AList.update k v f) (flatten (config s)) ps \<and>
              map fst (flatten (config s')) = map fst (flatten (config s)) \<and>
              map fst (config s') = map fst (config s) \<and>
              env_prefix s' = env_prefix s \<and> config_help s' = config_help s \<and>
              config_file_path s' = config_file_path s \<and> console s' = console s"
  using assms
proof (induction ps arbitrary: s)
  case Nil
  then show ?case by simp
next
  case (Cons p ps)
  obtain k v where p: "p = (k, v)" by (cases p)
  have key: "k \<in> fst ` set (flatten (config s))"
    using Cons.prems(3) p by simp
  obtain s1 where s1: "set_option_cfg w k v s = Return () s1" "wf_obj (config s1)"
      "flattened_config_field s1 = Some (flatten (config s1))"
      "flatten (config s1) = AList.update k v (flatten (config s))"
      "map fst (config s1) = map fst (config s)"
      "env_prefix s1 = env_prefix s" "config_help s1 = config_help s"
      "config_file_path s1 = config_file_path s" "console s1 = console s"
    using set_option_cfg_wf [OF Cons.prems(1,2) key, of w v] by blast
  have keys1: "fst ` set (flatten (config s1)) = fst ` set (flatten (config s))"
    using s1(4) key by (simp add: update_key_set)
  have "fst ` set ps \<subseteq> fst ` set (flatten (config s1))"
    using Cons.prems(3) keys1 by simp
  from Cons.IH [OF s1(2) _ this] s1(3)
  obtain s' where s': "apply_pairs w ps s1 = Return () s'" "wf_obj (config s')"
      "flattened_config_field s' = None \<or> flattened_config_field s' = Some (flatten (config s'))"
      "ps \<noteq> [] \<longrightarrow> flattened_config_field s' = Some (flatten (config s'))"
      "flatten (config s') = foldl (\<lambda>f (k, v). AList.update k v f) (flatten (config s1)) ps"
      "map fst (flatten (config s')) = map fst (flatten (config s1))"
      "map fst (config s') = map fst (config s1)"
      "env_prefix s' = env_prefix s1" "config_help s' = config_help s1"
      "config_file_path s' = config_file_path s1" "console s' = console s1"
    by blast
  have cached: "flattened_config_field s' = Some (flatten (config s'))"
  proof (cases ps)
    case Nil
    then show ?thesis using s'(1) s1(3) by simp
  next
    case (Cons a list)
    then show ?thesis using s'(4) by simp
  qed
  have "map fst (flatten (config s1)) = map fst (flatten (config s))"
    using s1(4) key by (simp add: update_present_keys)
  then show ?case
    using s1 s' cached p by simp
qed


lemma flattened_config_consistent:
  "flattened_config_field s = None \<or> flattened_config_field s = Some (flatten (config s)) \<Longrightarrow>
   fst (flattened_config s) = flatten (config s)"
  by (auto simp: flattened_config_def Let_def)

section \<open>The steps of reading all sources\<close>

lemma read_config_file_wf:
  assumes "wf_obj (config s)"
    and "flattened_config_field s = None \<or> flattened_config_field s = Some (flatten (config s))"
    and "fst ` set (file_supplies w s) \<subseteq> fst ` set (flatten (config s))"
  shows "wf_obj (config (read_config_file w s)) \<and>
         (flattened_config_field (read_config_file w s) = None \<or>
          flattened_config_field (read_config_file w s) =
            Some (flatten (config (read_config_file w s)))) \<and>
         flatten (config (read_config_file w s)) =
           foldl (\<lambda>f (k, v). AList.update k v f) (flatten (config s)) (file_supplies w s) \<and>
         map fst (flatten (config (read_config_file w s))) = map fst (flatten (config s)) \<and>
         map fst (config (read_config_file w s)) = map fst (config s) \<and>
         env_prefix (read_config_file w s) = env_prefix s \<and>
         config_help (read_config_file w s) = config_help s"
proof (cases "yaml_readSync w (config_file_path s)")
  case (YamlThrows e)
  then show ?thesis
    using assms(1,2) by (simp add: read_config_file_def read_config_file_try_def file_supplies_def)
next
  case YamlUndefined
  then show ?thesis
    using assms(1,2) by (simp add: read_config_file_def read_config_file_try_def file_supplies_def)
next
  case (YamlDocument file_config)
  then have sup: "file_supplies w s = file_pairs file_config"
    by (simp add: file_supplies_def)
  have try_eq: "read_config_file_try w s = apply_pairs w (file_pairs file_config) s"
    using YamlDocument
    by (simp add: read_config_file_try_def file_pairs_def file_loop_apply_pairs)
  have sub: "fst ` set (file_pairs file_config) \<subseteq> fst ` set (flatten (config s))"
    using assms(3) sup by simp
  obtain s' where "apply_pairs w (file_pairs file_config) s = Return () s'" "wf_obj (config s')"
      "flattened_config_field s' = None \<or> flattened_config_field s' = Some (flatten (config s'))"
      "flatten (config s') =
         foldl (\<lambda>f (k, v). AList.update k v f) (flatten (config s)) (file_pairs file_config)"
      "map fst (flatten (config s')) = map fst (flatten (config s))"
      "map fst (config s') = map fst (config s)"
      "env_prefix s' = env_prefix s" "config_help s' = config_help s"
    using apply_pairs_wf [OF assms(1,2) sub, of w] by blast
  then show ?thesis
    using try_eq sup by (simp add: read_config_file_def)
qed

lemma init_argparser_loop_ok:
  assumes "distinct (map (\<lambda>k. ''--'' @ replace_dots k) keys)"
    and "set (map (\<lambda>k. ''--'' @ replace_dots k) keys) \<inter> set (concat (map option_strings parser)) = {}"
  shows "\<exists>parser'. init_argparser_loop w s0 h keys parser = Inr parser'"
  using assms
proof (induction keys arbitrary: parser)
  case Nil
  then show ?case by simp
next
  case (Cons key keys)
  define help_value where "help_value =
    (case map_of h key of
       Some x \<Rightarrow> JPrimitive x
     | None \<Rightarrow> (case runtime_get w (runtime_log s0) OfObject key of
                  JUndefined \<Rightarrow> JPrimitive (Str '''')
                | x \<Rightarrow> x))"
  let ?a = "Action [''--'' @ replace_dots key] (Some key) help_value"
  have add: "addArgument parser (''--'' @ replace_dots key) key help_value = Inr (parser @ [?a])"
    using Cons.prems(2) by (auto simp: addArgument_def)
  have "set (map (\<lambda>k. ''--'' @ replace_dots k) keys) \<inter>
          set (concat (map option_strings (parser @ [?a]))) = {}"
    using Cons.prems by auto
  moreover have "distinct (map (\<lambda>k. ''--'' @ replace_dots k) keys)"
    using Cons.prems(1) by simp
  ultimately obtain parser' where "init_argparser_loop w s0 h keys (parser @ [?a]) = Inr parser'"
    using Cons.IH by blast
  then show ?case
    using add unfolding help_value_def by simp
qed

lemma init_argparser_ok:
  assumes "distinct (''-h'' # ''--help'' #
             map (\<lambda>k. ''--'' @ replace_dots k) (map fst (fst (flattened_config s))))"
  shows "\<exists>parser. init_argparser w s = Return parser (snd (flattened_config s))"
proof -
  have "\<exists>parser'. init_argparser_loop w (snd (flattened_config s)) (flatten (config_help s))
          (map fst (fst (flattened_config s))) ArgumentParser = Inr parser'"
    using assms by (intro init_argparser_loop_ok) (auto simp: ArgumentParser_def)
  then show ?thesis
    by (auto simp: init_argparser_def Let_def split: prod.splits)
qed

lemma read_unfold:
  "read w s =
     (case read_environment w (read_config_file w s) of
        Throw e s2 \<Rightarrow> Throw e s2
      | Return u s2 \<Rightarrow>
          (case read_args w s2 of
             Throw e s3 \<Rightarrow> Throw e s3
           | Return u' s3 \<Rightarrow> Return (fst (verify_config s3)) (snd (verify_config s3))))"
  by (simp add: read_def Let_def split: outcome.splits prod.splits)

lemma read_all_steps:
  assumes wf: "wf_obj (config s)"
    and cache: "flattened_config_field s = None \<or>
                flattened_config_field s = Some (flatten (config s))"
    and from_file: "fst ` set (file_supplies w s) \<subseteq> fst ` set (flatten (config s))"
    and from_env: "fst ` set (environment_pairs w s) \<subseteq> fst ` set (flatten (config s))"
    and opts: "distinct (''-h'' # ''--help'' #
                 map (\<lambda>k. ''--'' @ replace_dots k) (map fst (flatten (config s))))"
  shows "\<exists>s2 s3. read_environment w (read_config_file w s) = Return () s2 \<and>
           read_args w s2 = Return () s3 \<and>
           read w s = Return (fst (verify_config s3)) (snd (verify_config s3)) \<and>
           fst (flattened_config s3) =
             foldl (\<lambda>f (k, v). AList.update k v f)
               (foldl (\<lambda>f (k, v). AList.update k v f)
                 (foldl (\<lambda>f (k, v). AList.update k v f) (flatten (config s)) (file_supplies w s))
                 (environment_pairs w s))
               (args_pairs w (map fst (flatten (config s))))"
proof -
  let ?upd = "\<lambda>f (k, v). AList.update k v f"
  define s1 where "s1 = read_config_file w s"
  have s1: "wf_obj (config s1)"
    "flattened_config_field s1 = None \<or> flattened_config_field s1 = Some (flatten (config s1))"
    "flatten (config s1) = foldl ?upd (flatten (config s)) (file_supplies w s)"
    "map fst (flatten (config s1)) = map fst (flatten (config s))"
    "map fst (config s1) = map fst (config s)"
    "env_prefix s1 = env_prefix s"
    using read_config_file_wf [OF wf cache from_file] unfolding s1_def
    by blast+
  have keys1: "fst ` set (flatten (config s1)) = fst ` set (flatten (config s))"
    using s1(4) by (metis list.set_map)
  have env1: "environment_pairs w s1 = environment_pairs w s"
    using s1(5,6) by (simp add: environment_pairs_def)
  have "fst ` set (environment_pairs w s1) \<subseteq> fst ` set (flatten (config s1))"
    using from_env env1 keys1 by simp
  from apply_pairs_wf [OF s1(1,2) this, of w]
  obtain s2 where s2: "apply_pairs w (environment_pairs w s1) s1 = Return () s2"
    "wf_obj (config s2)"
    "flattened_config_field s2 = None \<or> flattened_config_field s2 = Some (flatten (config s2))"
    "flatten (config s2) = foldl ?upd (flatten (config s1)) (environment_pairs w s1)"
    "map fst (flatten (config s2)) = map fst (flatten (config s1))"
    by blast
  have r2: "read_environment w s1 = Return () s2"
    using s2(1) by (simp add: read_environment_apply_pairs)
  define s2' where "s2' = snd (flattened_config s2)"
  have view2: "fst (flattened_config s2) = flatten (config s2)"
    using s2(3) by (rule flattened_config_consistent)
  have s2': "config s2' = config s2" "flattened_config_field s2' = Some (flatten (config s2))"
    using s2(3) unfolding s2'_def by (auto simp: flattened_config_def Let_def)
  have keys2: "map fst (flatten (config s2)) = map fst (flatten (config s))"
    using s2(5) s1(4) by simp
  obtain parser where parser: "init_argparser w s2 = Return parser s2'"
    using init_argparser_ok [of s2 w] opts unfolding s2'_def view2 keys2 by blast
  have r3: "read_args w s2 = apply_pairs w (args_pairs w (map fst (flatten (config s)))) s2'"
    using parser by (simp add: read_args_apply_pairs view2 keys2)
  have "fst ` set (args_pairs w (map fst (flatten (config s)))) \<subseteq> set (map fst (flatten (config s)))"
    using args_pairs_iff [of _ _ w "map fst (flatten (config s))"] by fastforce
  then have "fst ` set (args_pairs w (map fst (flatten (config s)))) \<subseteq> fst ` set (flatten (config s2'))"
    unfolding s2'(1) keys2 [symmetric] by simp
  moreover have "wf_obj (config s2')"
    "flattened_config_field s2' = None \<or> flattened_config_field s2' = Some (flatten (config s2'))"
    using s2(2) s2' by simp_all
  ultimately obtain s3 where s3:
    "apply_pairs w (args_pairs w (map fst (flatten (config s)))) s2' = Return () s3"
    "flattened_config_field s3 = None \<or> flattened_config_field s3 = Some (flatten (config s3))"
    "flatten (config s3) =
       foldl ?upd (flatten (config s2')) (args_pairs w (map fst (flatten (config s))))"
    using apply_pairs_wf [of s2' "args_pairs w (map fst (flatten (config s)))" w] by blast
  have "fst (flattened_config s3) = flatten (config s3)"
    using s3(2) by (rule flattened_config_consistent)
  then have "fst (flattened_config s3) =
      foldl ?upd (foldl ?upd (foldl ?upd (flatten (config s)) (file_supplies w s))
        (environment_pairs w s)) (args_pairs w (map fst (flatten (config s))))"
    using s3(3) s2'(1) s2(4) s1(3) env1 by simp
  moreover have "read_args w s2 = Return () s3"
    using r3 s3(1) by simp
  moreover have "read w s = Return (fst (verify_config s3)) (snd (verify_config s3))"
    using r2 \<open>read_args w s2 = Return () s3\<close> unfolding s1_def by (simp add: read_unfold)
  ultimately show ?thesis
    using r2 unfolding s1_def by (intro exI [of _ s2] exI [of _ s3]) simp
qed




section \<open>Precedence of the sources\<close>

lemma map_of_foldl_update:
  "map_of (foldl (\<lambda>f (k, v). AList.update k v f) f ps) = map_of f ++ map_of (rev ps)"
proof (induction ps arbitrary: f)
  case Nil
  then show ?case by simp
next
  case (Cons p ps)
  obtain k v where p: "p = (k, v)" by (cases p)
  have "map_of (AList.update k v f) ++ map_of (rev ps) = map_of f ++ ([k \<mapsto> v] ++ map_of (rev ps))"
    by (rule ext) (simp add: update_conv' map_add_def split: option.splits)
  then show ?case
    using Cons.IH [of "AList.update k v f"] p by simp
qed

lemma map_of_rev_distinct: "distinct (map fst ps) \<Longrightarrow> map_of (rev ps) = map_of ps"
proof (rule ext)
  fix k
  assume d: "distinct (map fst ps)"
  have d': "distinct (map fst (rev ps))"
    using d by (simp add: rev_map [symmetric])
  show "map_of (rev ps) k = map_of ps k"
  proof (cases "map_of ps k")
    case None
    then have "map_of (rev ps) k = None"
      by (metis map_of_eq_None_iff set_rev)
    then show ?thesis using None by simp
  next
    case (Some v)
    then have "(k, v) \<in> set (rev ps)" by (auto dest: map_of_SomeD)
    then show ?thesis using Some d' by simp
  qed
qed

lemma wf_obj_distinct: "wf_obj tree \<Longrightarrow> distinct (map fst tree)"
  by (induction tree rule: wf_obj.induct) auto

lemma distinct_supplied_pairs:
  "distinct keys \<Longrightarrow>
   distinct (map fst (concat (map (\<lambda>k. case g k of None \<Rightarrow> [] | Some x \<Rightarrow> [(k, Str x)]) keys)))"
proof (induction keys)
  case Nil
  then show ?case by simp
next
  case (Cons key keys)
  have "key \<notin> fst ` set (concat (map (\<lambda>k. case g k of None \<Rightarrow> [] | Some x \<Rightarrow> [(k, Str x)]) keys))"
    using Cons.prems supplied_pairs_iff [of key _ g keys] by auto
  then show ?case
    using Cons by (cases "g key") auto
qed

lemma distinct_file_supplies: "distinct (map fst (file_supplies w s))"
  by (auto simp: file_supplies_def file_pairs_def distinct_map_filter distinct_flatten
      split: yaml_result.splits)

text \<open>
  On the same conditions the sources take precedence in the order of the steps: after
  reading, the flattened view maps a key to the value the command line gives for it,
  else to the value of its environment variable (the environment has pairs for keys of
  the top level only), else to the value the file gives when that is not the empty
  string, else to its initial value; and the result is true exactly when no key is left
  unset.
\<close>

lemma read_precedence:
  assumes wf: "wf_obj (config s)"
    and cache: "flattened_config_field s = None \<or>
                flattened_config_field s = Some (flatten (config s))"
    and from_file: "fst ` set (file_supplies w s) \<subseteq> fst ` set (flatten (config s))"
    and from_env: "fst ` set (environment_pairs w s) \<subseteq> fst ` set (flatten (config s))"
    and opts: "distinct (''-h'' # ''--help'' #
                 map (\<lambda>k. ''--'' @ replace_dots k) (map fst (flatten (config s))))"
  shows "\<exists>s'. read w s = Return (unset_keys (fst (flattened_config s')) = []) s' \<and>
           map_of (fst (flattened_config s')) =
             map_of (flatten (config s)) ++ map_of (file_supplies w s) ++
             map_of (environment_pairs w s) ++
             map_of (args_pairs w (map fst (flatten (config s))))"
proof -
  let ?upd = "\<lambda>f (k, v). AList.update k v f"
  let ?final = "foldl ?upd (foldl ?upd (foldl ?upd (flatten (config s)) (file_supplies w s))
                  (environment_pairs w s)) (args_pairs w (map fst (flatten (config s))))"
  obtain s2 s3 where run: "read w s = Return (fst (verify_config s3)) (snd (verify_config s3))"
    "fst (flattened_config s3) = ?final"
    using read_all_steps [OF assms] by blast
  define s' where "s' = snd (verify_config s3)"
  have view: "fst (flattened_config s') = fst (flattened_config s3)"
    unfolding s'_def
    by (simp add: verify_config_def verify_loop_eq flattened_config_def Let_def
        split: option.splits prod.splits)
  have ok: "fst (verify_config s3) = (unset_keys (fst (flattened_config s')) = [])"
    unfolding view
    by (simp add: verify_config_def verify_loop_eq split: prod.splits)
  have "distinct (map fst (environment_pairs w s))"
    unfolding environment_pairs_def
    by (rule distinct_supplied_pairs) (rule wf_obj_distinct [OF wf])
  moreover have "distinct (map fst (args_pairs w (map fst (flatten (config s)))))"
    unfolding args_pairs_def
    by (rule distinct_supplied_pairs) (rule distinct_flatten)
  ultimately have "map_of ?final =
      map_of (flatten (config s)) ++ map_of (file_supplies w s) ++
      map_of (environment_pairs w s) ++ map_of (args_pairs w (map fst (flatten (config s))))"
    using distinct_file_supplies [of w s]
    by (simp add: map_of_foldl_update map_of_rev_distinct)
  then show ?thesis
    using run ok view unfolding s'_def by (intro exI [of _ "snd (verify_config s3)"]) simp
qed


section \<open>The entries of the flattening under an assignment\<close>

lemma section_at_snoc:
  "section_at tree (path @ [key]) =
     (case section_at tree path of
        None \<Rightarrow> None
      | Some sub \<Rightarrow> (case map_of sub key of Some (Obj ob) \<Rightarrow> Some ob | _ \<Rightarrow> None))"
  by (induction path arbitrary: tree) (auto split: option.splits jsval.splits)

lemma entries_update_leaf:
  assumes "section_at ob [key] = None"
  shows "\<exists>ys old zs. flatten_entries p ob = ys @ old @ zs \<and>
           flatten_entries p (AList.update key (Leaf v) ob) =
             ys @ [(join_dot (p @ [key]), v)] @ zs \<and>
           fst ` set old \<subseteq> {join_dot (p @ [key])}"
  using assms
proof (induction ob)
  case Nil
  show ?case by (rule exI [of _ "[]"], rule exI [of _ "[]"], rule exI [of _ "[]"]) simp
next
  case (Cons e ob)
  obtain k n where e: "e = (k, n)" by (cases e)
  show ?case
  proof (cases "k = key")
    case True
    then obtain x where n: "n = Leaf x"
      using Cons.prems e by (cases n) auto
    show ?thesis
      by (rule exI [of _ "[]"], rule exI [of _ "[(join_dot (p @ [key]), x)]"],
          rule exI [of _ "flatten_entries p ob"]) (simp add: e n True)
  next
    case False
    then have "section_at ob [key] = None"
      using Cons.prems e by simp
    then obtain ys old zs where IH: "flatten_entries p ob = ys @ old @ zs"
        "flatten_entries p (AList.update key (Leaf v) ob) = ys @ [(join_dot (p @ [key]), v)] @ zs"
        "fst ` set old \<subseteq> {join_dot (p @ [key])}"
      using Cons.IH by blast
    show ?thesis
      by (rule exI [of _ "flatten_entries p [(k, n)] @ ys"], rule exI [of _ old], rule exI [of _ zs])
         (cases n; simp add: e False IH)
  qed
qed

lemma entries_update_section:
  assumes "map_of ob seg = Some (Obj sub)"
  shows "\<exists>pre post. flatten_entries p ob = pre @ flatten_entries (p @ [seg]) sub @ post \<and>
           (\<forall>sub'. flatten_entries p (AList.update seg (Obj sub') ob) =
              pre @ flatten_entries (p @ [seg]) sub' @ post)"
  using assms
proof (induction ob)
  case Nil
  then show ?case by simp
next
  case (Cons e ob)
  obtain k n where e: "e = (k, n)" by (cases e)
  show ?case
  proof (cases "k = seg")
    case True
    then have n: "n = Obj sub" using Cons.prems e by simp
    show ?thesis
      by (rule exI [of _ "[]"], rule exI [of _ "flatten_entries p ob"]) (simp add: e n True)
  next
    case False
    then have "map_of ob seg = Some (Obj sub)" using Cons.prems e by simp
    then obtain pre post where IH:
        "flatten_entries p ob = pre @ flatten_entries (p @ [seg]) sub @ post"
        "\<And>sub'. flatten_entries p (AList.update seg (Obj sub') ob) =
              pre @ flatten_entries (p @ [seg]) sub' @ post"
      using Cons.IH by blast
    show ?thesis
      by (rule exI [of _ "flatten_entries p [(k, n)] @ pre"], rule exI [of _ post])
         (cases n; simp add: e False IH)
  qed
qed

lemma entries_assign_at:
  assumes "section_at tree path = Some sub" "section_at tree (path @ [key]) = None"
  shows "\<exists>ys old zs. flatten_entries p tree = ys @ old @ zs \<and>
           flatten_entries p (assign_at path key v tree) =
             ys @ [(join_dot (p @ path @ [key]), v)] @ zs \<and>
           fst ` set old \<subseteq> {join_dot (p @ path @ [key])}"
  using assms
proof (induction path arbitrary: tree p)
  case Nil
  then show ?case using entries_update_leaf [of tree key p v] by simp
next
  case (Cons seg path)
  obtain sub0 where sub0: "map_of tree seg = Some (Obj sub0)"
    using Cons.prems(1) by (auto split: option.splits jsval.splits)
  have "section_at sub0 path = Some sub" "section_at sub0 (path @ [key]) = None"
    using Cons.prems sub0 by simp_all
  then obtain ys old zs where IH: "flatten_entries (p @ [seg]) sub0 = ys @ old @ zs"
      "flatten_entries (p @ [seg]) (assign_at path key v sub0) =
         ys @ [(join_dot ((p @ [seg]) @ path @ [key]), v)] @ zs"
      "fst ` set old \<subseteq> {join_dot ((p @ [seg]) @ path @ [key])}"
    using Cons.IH [of sub0 "p @ [seg]"] by blast
  obtain pre post where pp: "flatten_entries p tree = pre @ flatten_entries (p @ [seg]) sub0 @ post"
      "\<And>sub'. flatten_entries p (AList.update seg (Obj sub') tree) =
              pre @ flatten_entries (p @ [seg]) sub' @ post"
    using entries_update_section [OF sub0, of p] by blast
  show ?case
    by (rule exI [of _ "pre @ ys"], rule exI [of _ old], rule exI [of _ "zs @ post"])
       (use IH pp sub0 in simp)
qed


section \<open>Keys that an assignment leaves alone\<close>


lemma keys_foldl_update:
  "fst ` set (foldl (\<lambda>acc (k, v). AList.update k v acc) acc es) = fst ` set acc \<union> fst ` set es"
proof (induction es arbitrary: acc)
  case Nil
  then show ?case by simp
next
  case (Cons e es)
  obtain k v where e: "e = (k, v)" by (cases e)
  have "fst ` set (AList.update k v acc) = insert k (fst ` set acc)"
    by (simp add: dom_update)
  then show ?case
    using Cons [of "AList.update k v acc"] by (simp add: e)
qed

lemma keys_flatten: "fst ` set (flatten tree) = fst ` set (flatten_entries [] tree)"
  by (simp add: flatten_def keys_foldl_update)




lemma flatten_assign_at_key:
  assumes "section_at tree path = Some sub" "section_at tree (path @ [key]) = None"
  shows "join_dot (path @ [key]) \<in> fst ` set (flatten (assign_at path key v tree))"
    and "fst ` set (flatten tree) \<subseteq> fst ` set (flatten (assign_at path key v tree))"
proof -
  obtain ys old zs where e: "flatten_entries [] tree = ys @ old @ zs"
      "flatten_entries [] (assign_at path key v tree) = ys @ [(join_dot (path @ [key]), v)] @ zs"
      "fst ` set old \<subseteq> {join_dot (path @ [key])}"
    using entries_assign_at [OF assms(1,2), of "[]" v] by auto
  show "join_dot (path @ [key]) \<in> fst ` set (flatten (assign_at path key v tree))"
    by (simp add: keys_flatten e(2))
  show "fst ` set (flatten tree) \<subseteq> fst ` set (flatten (assign_at path key v tree))"
    using e(3) by (auto simp: keys_flatten e(1,2))
qed

lemma walk_outside: "walk w s (Outside x) segs \<noteq> Inr (Inside path ob)"
proof (induction segs arbitrary: x)
  case Nil
  then show ?case by simp
next
  case (Cons seg segs)
  then show ?case
    by (cases x) (auto simp: get_property_def)
qed

lemma walk_inside_result:
  "walk w s (Inside p ob0) segs = Inr (Inside path ob) \<Longrightarrow>
   path = p @ segs \<and> section_at ob0 segs = Some ob"
proof (induction segs arbitrary: p ob0)
  case Nil
  then show ?case by simp
next
  case (Cons seg segs)
  show ?case
  proof (cases "map_of ob0 seg")
    case None
    then show ?thesis
      using Cons.prems walk_outside by (simp add: get_property_def)
  next
    case (Some node)
    show ?thesis
    proof (cases node)
      case (Leaf x)
      then show ?thesis
        using Cons.prems Some walk_outside by (simp add: get_property_def)
    next
      case (Obj sub)
      then have "walk w s (Inside (p @ [seg]) sub) segs = Inr (Inside path ob)"
        using Cons.prems Some by (simp add: get_property_def)
      from Cons.IH [OF this] show ?thesis
        using Some Obj by simp
    qed
  qed
qed

text \<open>What one assignment does to the tree, when its key names no mapping node.\<close>

lemma assign_tree:
  assumes "\<not> names_section (config s) k0" "config_path w s k0 = Inr (node, key)"
    and "assign w s node key v = Inr s1"
  shows "flattened_config_field s1 = flattened_config_field s \<and>
         (config s1 = config s \<or>
          (\<exists>sub. section_at (config s) (butlast (split_dot k0)) = Some sub \<and>
                 section_at (config s) (butlast (split_dot k0) @ [last (split_dot k0)]) = None \<and>
                 config s1 =
                   assign_at (butlast (split_dot k0)) (last (split_dot k0)) v (config s)))"
proof -
  have ne: "split_dot k0 \<noteq> []" by (rule split_dot_nonempty)
  have key: "key = last (split_dot k0)"
    and walk: "walk w s (Inside [] (config s)) (butlast (split_dot k0)) = Inr node"
    using assms(2) by (auto simp: config_path_def Let_def split: sum.splits)
  have none: "section_at (config s) (butlast (split_dot k0) @ [last (split_dot k0)]) = None"
    using assms(1) ne by (simp add: names_section_def)
  note a = assign_Inr [OF assms(3)]
  show ?thesis
  proof (cases "config s1 = config s")
    case True
    then show ?thesis using a by simp
  next
    case False
    then obtain path ob where node: "node = Inside path ob"
        "config s1 = assign_at path key v (config s)"
      using a by blast
    have "path = butlast (split_dot k0)" "section_at (config s) (butlast (split_dot k0)) = Some ob"
      using walk_inside_result [of w s "[]" "config s" "butlast (split_dot k0)" path ob] walk node(1)
      by simp_all
    then show ?thesis
      using a node(2) key none by auto
  qed
qed


lemma assign_view_keys:
  assumes "\<not> names_section (config s) k0" "config_path w s k0 = Inr (node, key)"
    and "assign w s node key v = Inr s1"
  shows "fst ` set (view s) \<subseteq> fst ` set (view s1)"
proof -
  note t = assign_tree [OF assms(1-3)]
  show ?thesis
  proof (cases "flattened_config_field s")
    case (Some f)
    then show ?thesis using t by (simp add: view_def flattened_config_def)
  next
    case None
    have "fst ` set (flatten (config s)) \<subseteq> fst ` set (flatten (config s1))"
    proof (cases "config s1 = config s")
      case True
      then show ?thesis by simp
    next
      case False
      then obtain sub where "section_at (config s) (butlast (split_dot k0)) = Some sub"
          "section_at (config s) (butlast (split_dot k0) @ [last (split_dot k0)]) = None"
          "config s1 = assign_at (butlast (split_dot k0)) (last (split_dot k0)) v (config s)"
        using t by blast
      then show ?thesis
        using flatten_assign_at_key(2) [of "config s" "butlast (split_dot k0)" sub
          "last (split_dot k0)" v]
        by simp
    qed
    then show ?thesis
      using None t by (simp add: view_def flattened_config_def Let_def)
  qed
qed


lemma view_cached: "view (s\<lparr>flattened_config_field := Some f\<rparr>) = f"
  by (simp add: view_def flattened_config_def)



lemma set_option_cfg_written:
  assumes "\<not> names_section (config s) k0" "k0 \<in> fst ` set (view s)"
    and "set_option_cfg w k0 v s = Return u s'"
  shows "map_of (view s') k0 = Some v"
proof (cases w k0 v s rule: set_option_cfg_cases)
  case early
  then show ?thesis using assms(3) by simp
next
  case (late node key s1)
  then show ?thesis using assms(3) by simp
next
  case (returns node key s1 f')
  have "k0 \<in> fst ` set (fst (flattened_config s1))"
    using assign_view_keys [OF assms(1) returns(1,2)] assms(2) by (auto simp: view_def)
  then have "f' = AList.update k0 v (fst (flattened_config s1))"
    using returns(3) by (simp add: put_flattened_def)
  then show ?thesis
    using returns(4) assms(3) by (auto simp: view_cached update_conv')
qed


section \<open>Runs of assignments and the flattened view\<close>

lemma set_option_cfg_cached:
  assumes "flattened_config_field s \<noteq> None"
  shows "flattened_config_field (state_of (set_option_cfg w k0 v s)) \<noteq> None"
proof (cases w k0 v s rule: set_option_cfg_cases)
  case early
  then show ?thesis using assms by simp
next
  case (late node key s1)
  then show ?thesis using flattened_config_fields [of s1] by simp
next
  case (returns node key s1 f')
  then show ?thesis by simp
qed















section \<open>The pairs of the configuration file\<close>




section \<open>The pairs each reader applies\<close>







section \<open>One assignment on a consistent store\<close>
















section \<open>The two views of the store\<close>





end
